theory Spec2Isabelle
  imports Complex_Main
begin

section \<open>The notebook's dataset generator\<close>

text \<open>
  The repository is one notebook. Its only function is
  \<^verbatim>\<open>
  def make_dataset():
      X = numpy.random.randint(2, size=(2000, 7))
      X[:,2] = 3*X[:,1]
      X[:,3] = 2*X[:,0]
      X[:,5] = X[:,4] + 2*X[:,3]
      X[:,6] = 3*X[:,1] + 4*X[:,4] + 8*X[:,0]
      return X
  \<close>
  and its only other code is the cell
  \<^verbatim>\<open>
  X = make_dataset()
  model = BayesianNetwork.from_samples(X)
  model.plot()
  \<close>
  A two-dimensional array is the list of its rows, a one-dimensional array a list.
  Cells are \<open>int\<close>: every value the function computes lies between 0 and 15
  (lemma \<open>gen_row_bounds\<close>), so no integer width of numpy wraps around.
\<close>

type_synonym vector = "int list"
type_synonym matrix = "int list list"

datatype error = IndexError | ValueError

definition and_then :: "error + 'a \<Rightarrow> ('a \<Rightarrow> error + 'b) \<Rightarrow> error + 'b" where
  "and_then m f = (case m of Inl e \<Rightarrow> Inl e | Inr x \<Rightarrow> f x)"

definition has_shape :: "matrix \<Rightarrow> nat \<times> nat \<Rightarrow> bool" where
  "has_shape X s = (length X = fst s \<and> (\<forall>r \<in> set X. length r = snd s))"

text \<open>
  numpy is not part of the repository. What \<^verbatim>\<open>numpy.random.randint(high, size=s)\<close>
  returns is an input of the model, and numpy's contract for it is this predicate: an array
  of shape \<open>s\<close> whose cells lie in the half-open interval from 0 to \<open>high\<close>.
\<close>

definition randint_result :: "int \<Rightarrow> nat \<times> nat \<Rightarrow> matrix \<Rightarrow> bool" where
  "randint_result high s X0 =
     (has_shape X0 s \<and> (\<forall>r \<in> set X0. \<forall>v \<in> set r. 0 \<le> v \<and> v < high))"

text \<open>\<^verbatim>\<open>X[:,j]\<close>: column \<open>j\<close>; an index beyond the row length raises IndexError.\<close>

definition getcol :: "matrix \<Rightarrow> nat \<Rightarrow> error + vector" where
  "getcol X j =
     (if \<forall>r \<in> set X. j < length r then Inr (map (\<lambda>r. r ! j) X) else Inl IndexError)"

text \<open>
  \<^verbatim>\<open>X[:,j] = v\<close>: writes \<open>v\<close> into column \<open>j\<close>. A one-element \<open>v\<close> is broadcast to
  every row; any other length that is not the number of rows raises ValueError.
\<close>

definition setcol :: "matrix \<Rightarrow> nat \<Rightarrow> vector \<Rightarrow> error + matrix" where
  "setcol X j v =
     (if \<not> (\<forall>r \<in> set X. j < length r) then Inl IndexError
      else if length v = length X then Inr (map2 (\<lambda>r x. r[j := x]) X v)
      else if length v = 1 then Inr (map (\<lambda>r. r[j := hd v]) X)
      else Inl ValueError)"

text \<open>\<^verbatim>\<open>c * v\<close> for a scalar \<open>c\<close>.\<close>

definition smul :: "int \<Rightarrow> vector \<Rightarrow> vector" where
  "smul c v = map (\<lambda>x. c * x) v"

text \<open>\<^verbatim>\<open>a + b\<close> on one-dimensional arrays, with numpy's broadcasting of length one.\<close>

definition vadd :: "vector \<Rightarrow> vector \<Rightarrow> error + vector" where
  "vadd a b =
     (if length a = length b then Inr (map2 (\<lambda>x y. x + y) a b)
      else if length a = 1 then Inr (map (\<lambda>y. hd a + y) b)
      else if length b = 1 then Inr (map (\<lambda>x. x + hd b) a)
      else Inl ValueError)"

text \<open>
  \<open>make_dataset X0\<close>, where \<open>X0\<close> is what the call of \<open>randint\<close> in the first line
  returned. Each assignment evaluates its right-hand side from left to right, then writes
  the column.
\<close>

definition make_dataset :: "matrix \<Rightarrow> error + matrix" where
  "make_dataset X0 =
     and_then (getcol X0 1) (\<lambda>a1.
     and_then (setcol X0 2 (smul 3 a1)) (\<lambda>X1.
     and_then (getcol X1 0) (\<lambda>b0.
     and_then (setcol X1 3 (smul 2 b0)) (\<lambda>X2.
     and_then (getcol X2 4) (\<lambda>c4.
     and_then (getcol X2 3) (\<lambda>c3.
     and_then (vadd c4 (smul 2 c3)) (\<lambda>s5.
     and_then (setcol X2 5 s5) (\<lambda>X3.
     and_then (getcol X3 1) (\<lambda>d1.
     and_then (getcol X3 4) (\<lambda>d4.
     and_then (vadd (smul 3 d1) (smul 4 d4)) (\<lambda>t.
     and_then (getcol X3 0) (\<lambda>d0.
     and_then (vadd t (smul 8 d0)) (\<lambda>s6.
     setcol X3 6 s6)))))))))))))"

text \<open>What the four assignments do to one row.\<close>

definition gen_row :: "vector \<Rightarrow> vector" where
  "gen_row r =
     (let r1 = r[2 := 3 * r ! 1];
          r2 = r1[3 := 2 * r1 ! 0];
          r3 = r2[5 := r2 ! 4 + 2 * r2 ! 3]
      in r3[6 := 3 * r3 ! 1 + 4 * r3 ! 4 + 8 * r3 ! 0])"

text \<open>
  The notebook's last cell: the dataset goes to \<^verbatim>\<open>BayesianNetwork.from_samples\<close>.
  That routine belongs to the pomegranate library; here it is a parameter \<open>learn\<close>, any
  function of the array it is given.
\<close>

definition run_cell :: "(matrix \<Rightarrow> 'model) \<Rightarrow> matrix \<Rightarrow> error + 'model" where
  "run_cell learn X0 = and_then (make_dataset X0) (\<lambda>X. Inr (learn X))"

text \<open>Four arrays that \<open>randint\<close> can return, used as concrete inputs below.\<close>

definition draw_const :: matrix where
  "draw_const = replicate 2000 [1, 0, 1, 1, 1, 0, 0]"

definition draw_zero :: matrix where
  "draw_zero = replicate 2000 [0, 0, 0, 0, 0, 0, 0]"

definition draw_alt :: matrix where
  "draw_alt = map (\<lambda>k. [int (k mod 2), 1, 0, 1, int (k div 2 mod 2), 1, 0]) [0..<2000]"

definition draw_other :: matrix where
  "draw_other = replicate 2000 [1, 0, 0, 0, 1, 1, 1]"

section \<open>Structure learning, as the specification describes it\<close>

text \<open>
  \<^verbatim>\<open>BayesianNetwork.from_samples\<close> is a routine of the pomegranate library; the
  notebook calls it and the repository holds none of its code. The definitions of this
  section follow the specification's sections 3, 4.1, 4.3 and 4.4: a greedy search along a
  fixed ordering of the variables. The scoring function, the ordering and the optional
  bound on the size of a parent set are parameters.
\<close>

text \<open>
  Modelled from the spec: the Network data type, absent from the sources. A network maps
  each variable, identified by its index, to its parent set.
\<close>

type_synonym network = "(nat \<times> nat list) list"

text \<open>
  Modelled from the spec: the Scoring Function, absent from the sources. It takes the
  target variable, a candidate parent set and the observation table and returns a real
  score; higher is better.
\<close>

type_synonym scoring = "nat \<Rightarrow> nat list \<Rightarrow> matrix \<Rightarrow> real"

datatype learn_error = MalformedDataError

text \<open>
  Modelled from the spec: the Observation Table's constructor, absent from the sources.
  It rejects input whose rows differ in length.
\<close>

definition observation_table :: "matrix \<Rightarrow> learn_error + matrix" where
  "observation_table X =
     (if \<forall>r \<in> set X. length r = length (hd X) then Inr X else Inl MalformedDataError)"

text \<open>
  Modelled from the spec: the candidate parent sets of Structure Search, absent from the
  sources. They are drawn only from the variables earlier in the ordering, optionally
  bounded by a maximum size \<open>k\<close>.
\<close>

definition candidates :: "nat option \<Rightarrow> nat list \<Rightarrow> nat list list" where
  "candidates k earlier =
     filter (\<lambda>P. case k of None \<Rightarrow> True | Some m \<Rightarrow> length P \<le> m) (subseqs earlier)"

text \<open>
  Modelled from the spec: the tie-break of Structure Search, absent from the sources.
  Among parent sets of equal score the smaller one is preferred, then the one with the
  lowest variable index.
\<close>

fun lower_index :: "nat list \<Rightarrow> nat list \<Rightarrow> bool" where
  "lower_index (x # xs) (y # ys) = (x < y \<or> (x = y \<and> lower_index xs ys))"
| "lower_index _ _ = False"

definition preferred :: "scoring \<Rightarrow> matrix \<Rightarrow> nat \<Rightarrow> nat list \<Rightarrow> nat list \<Rightarrow> bool" where
  "preferred score T v P Q =
     (score v Q T < score v P T \<or>
      (score v P T = score v Q T \<and>
       (length P < length Q \<or> (length P = length Q \<and> lower_index (sort P) (sort Q)))))"

text \<open>
  Modelled from the spec: the selection step of Structure Search, absent from the
  sources. Among the candidates it selects the one that maximises the score.
\<close>

definition best_parent_set ::
  "scoring \<Rightarrow> nat option \<Rightarrow> matrix \<Rightarrow> nat \<Rightarrow> nat list \<Rightarrow> nat list" where
  "best_parent_set score k T v earlier =
     foldl (\<lambda>best P. if preferred score T v P best then P else best) [] (candidates k earlier)"

text \<open>
  Modelled from the spec: the loop of Structure Search, absent from the sources. It
  visits the variables in the order given; \<open>earlier\<close> holds those already visited.
\<close>

fun search_order ::
  "scoring \<Rightarrow> nat option \<Rightarrow> matrix \<Rightarrow> nat list \<Rightarrow> nat list \<Rightarrow> network" where
  "search_order score k T earlier [] = []"
| "search_order score k T earlier (v # later) =
     (v, best_parent_set score k T v earlier) # search_order score k T (earlier @ [v]) later"

definition structure_search :: "scoring \<Rightarrow> nat option \<Rightarrow> nat list \<Rightarrow> matrix \<Rightarrow> network" where
  "structure_search score k order T = search_order score k T [] order"

text \<open>
  Modelled from the spec: the learning call \<^verbatim>\<open>from_samples\<close>, absent from the
  sources. It builds the observation table, which may fail, and runs the search on it.
\<close>

definition from_samples ::
  "scoring \<Rightarrow> nat option \<Rightarrow> nat list \<Rightarrow> matrix \<Rightarrow> learn_error + network" where
  "from_samples score k order X =
     (case observation_table X of
        Inl e \<Rightarrow> Inl e
      | Inr T \<Rightarrow> Inr (structure_search score k order T))"

text \<open>
  Modelled from the spec: the Network Model's \<^verbatim>\<open>parents(variable)\<close>, absent from the
  sources, and the directed graph the network forms, an edge from each parent to its child.
\<close>

definition parents :: "network \<Rightarrow> nat \<Rightarrow> nat list" where
  "parents net v = (case map_of net v of None \<Rightarrow> [] | Some P \<Rightarrow> P)"

definition edges :: "network \<Rightarrow> (nat \<times> nat) set" where
  "edges net = {(p, v). p \<in> set (parents net v)}"

text \<open>
  Modelled from the spec: the topological sort that the specification's test runs on the
  learned graph, absent from the sources. It places, one at a time, a variable all of whose
  parents are placed, and fails when variables remain and none can be placed.
\<close>

function topological_sort :: "network \<Rightarrow> nat list \<Rightarrow> nat list option" where
  "topological_sort net placed =
     (if net = [] then Some placed
      else case find (\<lambda>e. list_all (\<lambda>p. p \<in> set placed) (snd e)) net of
             None \<Rightarrow> None
           | Some e \<Rightarrow> topological_sort (remove1 e net) (placed @ [fst e]))"
  by pat_completeness auto
termination
proof (relation "measure (\<lambda>(net, placed). length net)")
  show "wf (measure (\<lambda>(net, placed). length net))"
    by simp
next
  fix net :: network and placed :: "nat list" and e
  assume "net \<noteq> []"
    and f: "find (\<lambda>e. list_all (\<lambda>p. p \<in> set placed) (snd e)) net = Some e"
  have "e \<in> set net"
    using f by (auto simp add: find_Some_iff)
  then have "length (remove1 e net) < length net"
    using length_pos_if_in_set [of e net] by (simp add: length_remove1)
  then show "((remove1 e net, placed @ [fst e]), (net, placed))
               \<in> measure (\<lambda>(net, placed). length net)"
    by simp
qed

declare topological_sort.simps [simp del]

text \<open>
  Two notions for the proofs: the position of a variable in the ordering, and a network
  whose entries each have their parents among the variables placed before them.
\<close>

definition position :: "nat list \<Rightarrow> nat \<Rightarrow> nat" where
  "position order v = length (takeWhile (\<lambda>x. x \<noteq> v) order)"

fun parents_first :: "nat list \<Rightarrow> network \<Rightarrow> bool" where
  "parents_first placed [] = True"
| "parents_first placed (e # rest) =
     (list_all (\<lambda>p. p \<in> set placed) (snd e) \<and> parents_first (placed @ [fst e]) rest)"

text \<open>
  A concrete input for the search: a table whose column 2 is the sum of columns 0 and 1,
  and a score that counts the rows in which the variable equals the sum of its parents,
  less one for each parent.
\<close>

definition example_table :: matrix where
  "example_table = [[0, 1, 1], [1, 0, 1], [1, 1, 2], [0, 0, 0]]"

definition example_score :: scoring where
  "example_score v P T =
     real (length (filter (\<lambda>r. r ! v = sum_list (map (\<lambda>p. r ! p) P)) T)) - real (length P)"

section \<open>Lemmas about make_dataset\<close>

subsection \<open>Column reads and writes on a rectangular array\<close>

lemma and_then_Inr [simp]: "and_then (Inr x) f = f x"
  by (simp add: and_then_def)

lemma map2_same: "map2 g xs (map f xs) = map (\<lambda>x. g x (f x)) xs"
  by (induction xs) simp_all

lemma map2_maps: "map2 h (map f xs) (map g xs) = map (\<lambda>x. h (f x) (g x)) xs"
  by (induction xs) simp_all

lemma getcol_ok:
  assumes "\<forall>r \<in> set X. length r = n" and "j < n"
  shows "getcol X j = Inr (map (\<lambda>r. r ! j) X)"
  using assms by (simp add: getcol_def)

lemma setcol_ok:
  assumes "\<forall>r \<in> set X. length r = n" and "j < n"
  shows "setcol X j (map f X) = Inr (map (\<lambda>r. r[j := f r]) X)"
  using assms by (simp add: setcol_def map2_same)

lemma smul_map: "smul c (map f X) = map (\<lambda>r. c * f r) X"
  by (simp add: smul_def)

lemma vadd_map: "vadd (map f X) (map g X) = Inr (map (\<lambda>r. f r + g r) X)"
  by (simp add: vadd_def map2_maps)

lemma make_dataset_rows:
  assumes "\<forall>r \<in> set X0. length r = 7"
  shows "make_dataset X0 = Inr (map gen_row X0)"
proof -
  let ?s1 = "\<lambda>r::vector. r[2 := 3 * r ! 1]"
  let ?s2 = "\<lambda>r::vector. r[3 := 2 * r ! 0]"
  let ?s3 = "\<lambda>r::vector. r[5 := r ! 4 + 2 * r ! 3]"
  let ?s4 = "\<lambda>r::vector. r[6 := 3 * r ! 1 + 4 * r ! 4 + 8 * r ! 0]"
  let ?X1 = "map ?s1 X0"
  let ?X2 = "map ?s2 ?X1"
  let ?X3 = "map ?s3 ?X2"
  have l0: "\<forall>r \<in> set X0. length r = 7" by (rule assms)
  have l1: "\<forall>r \<in> set ?X1. length r = 7" using l0 by simp
  have l2: "\<forall>r \<in> set ?X2. length r = 7" using l0 by simp
  have l3: "\<forall>r \<in> set ?X3. length r = 7" using l0 by simp
  have a1: "setcol X0 2 (smul 3 (map (\<lambda>r. r ! 1) X0)) = Inr ?X1"
    unfolding smul_map by (rule setcol_ok [OF l0]) simp
  have a2: "setcol ?X1 3 (smul 2 (map (\<lambda>r. r ! 0) ?X1)) = Inr ?X2"
    unfolding smul_map by (rule setcol_ok [OF l1]) simp
  have a3: "vadd (map (\<lambda>r. r ! 4) ?X2) (smul 2 (map (\<lambda>r. r ! 3) ?X2))
              = Inr (map (\<lambda>r. r ! 4 + 2 * r ! 3) ?X2)"
    unfolding smul_map by (rule vadd_map)
  have a4: "setcol ?X2 5 (map (\<lambda>r. r ! 4 + 2 * r ! 3) ?X2) = Inr ?X3"
    by (rule setcol_ok [OF l2]) simp
  have a5: "vadd (smul 3 (map (\<lambda>r. r ! 1) ?X3)) (smul 4 (map (\<lambda>r. r ! 4) ?X3))
              = Inr (map (\<lambda>r. 3 * r ! 1 + 4 * r ! 4) ?X3)"
    unfolding smul_map by (rule vadd_map)
  have a6: "vadd (map (\<lambda>r. 3 * r ! 1 + 4 * r ! 4) ?X3) (smul 8 (map (\<lambda>r. r ! 0) ?X3))
              = Inr (map (\<lambda>r. 3 * r ! 1 + 4 * r ! 4 + 8 * r ! 0) ?X3)"
    unfolding smul_map by (rule vadd_map)
  have a7: "setcol ?X3 6 (map (\<lambda>r. 3 * r ! 1 + 4 * r ! 4 + 8 * r ! 0) ?X3)
              = Inr (map ?s4 ?X3)"
    by (rule setcol_ok [OF l3]) simp
  have g0: "getcol X0 1 = Inr (map (\<lambda>r. r ! 1) X0)"
    by (rule getcol_ok [OF l0]) simp
  have g1: "getcol ?X1 0 = Inr (map (\<lambda>r. r ! 0) ?X1)"
    by (rule getcol_ok [OF l1]) simp
  have g24: "getcol ?X2 4 = Inr (map (\<lambda>r. r ! 4) ?X2)"
    by (rule getcol_ok [OF l2]) simp
  have g23: "getcol ?X2 3 = Inr (map (\<lambda>r. r ! 3) ?X2)"
    by (rule getcol_ok [OF l2]) simp
  have g31: "getcol ?X3 1 = Inr (map (\<lambda>r. r ! 1) ?X3)"
    by (rule getcol_ok [OF l3]) simp
  have g34: "getcol ?X3 4 = Inr (map (\<lambda>r. r ! 4) ?X3)"
    by (rule getcol_ok [OF l3]) simp
  have g30: "getcol ?X3 0 = Inr (map (\<lambda>r. r ! 0) ?X3)"
    by (rule getcol_ok [OF l3]) simp
  have "make_dataset X0 = Inr (map ?s4 ?X3)"
    unfolding make_dataset_def
    by (simp only: g0 g1 g24 g23 g31 g34 g30 a1 a2 a3 a4 a5 a6 a7 and_then_Inr)
  also have "map ?s4 ?X3 = map gen_row X0"
    by (simp add: gen_row_def Let_def comp_def)
  finally show ?thesis .
qed

subsection \<open>Rows of the result\<close>

lemma len7: "length (r::vector) = 7 \<Longrightarrow> \<exists>a b c d e f g. r = [a, b, c, d, e, f, g]"
  by (auto simp add: eval_nat_numeral length_Suc_conv)

lemma gen_row_7:
  "gen_row [a, b, c, d, e, f, g] =
     [a, b, 3 * b, 2 * a, e, e + 2 * (2 * a), 3 * b + 4 * e + 8 * a]"
  by (simp add: gen_row_def Let_def)

lemma draw_shape:
  assumes "randint_result 2 (2000, 7) X0"
  shows "length X0 = 2000" and "\<forall>r \<in> set X0. length r = 7"
  using assms by (simp_all add: randint_result_def has_shape_def)

lemma draw_row:
  assumes "randint_result 2 (2000, 7) X0" and "i < 2000"
  shows "\<exists>a b c d e f g. X0 ! i = [a, b, c, d, e, f, g] \<and>
           a \<in> {0, 1} \<and> b \<in> {0, 1} \<and> c \<in> {0, 1} \<and> d \<in> {0, 1} \<and>
           e \<in> {0, 1} \<and> f \<in> {0, 1} \<and> g \<in> {0, 1}"
proof -
  have m: "X0 ! i \<in> set X0"
    using assms draw_shape(1) by simp
  then have "length (X0 ! i) = 7"
    using assms(1) draw_shape(2) by blast
  then obtain a b c d e f g where r: "X0 ! i = [a, b, c, d, e, f, g]"
    using len7 by blast
  have "\<forall>v \<in> set (X0 ! i). 0 \<le> v \<and> v < 2"
    using assms(1) m by (simp add: randint_result_def)
  then have "\<forall>v \<in> set (X0 ! i). v \<in> {0, 1}"
    by auto
  then show ?thesis
    unfolding r by simp
qed

lemma make_dataset_draw:
  assumes "randint_result 2 (2000, 7) X0"
  shows "make_dataset X0 = Inr (map gen_row X0)"
  using assms draw_shape(2) by (simp add: make_dataset_rows)

lemma dataset_row:
  assumes "randint_result 2 (2000, 7) X0" and "i < 2000"
  shows "\<exists>a b c d e f g. X0 ! i = [a, b, c, d, e, f, g] \<and>
           a \<in> {0, 1} \<and> b \<in> {0, 1} \<and> e \<in> {0, 1} \<and>
           map gen_row X0 ! i = [a, b, 3 * b, 2 * a, e, e + 4 * a, 3 * b + 4 * e + 8 * a]"
proof -
  obtain a b c d e f g where r: "X0 ! i = [a, b, c, d, e, f, g]"
    and v: "a \<in> {0, 1}" "b \<in> {0, 1}" "e \<in> {0, 1}"
    using draw_row [OF assms] by blast
  have "map gen_row X0 ! i = gen_row (X0 ! i)"
    using assms draw_shape(1) by simp
  then have "map gen_row X0 ! i = [a, b, 3 * b, 2 * a, e, e + 4 * a, 3 * b + 4 * e + 8 * a]"
    by (simp add: r gen_row_7)
  then show ?thesis
    using r v by blast
qed

lemma gen_row_bounds:
  assumes "randint_result 2 (2000, 7) X0" and "i < 2000" and "j < 7"
  shows "0 \<le> map gen_row X0 ! i ! j \<and> map gen_row X0 ! i ! j \<le> 15"
proof -
  obtain a b c d e f g where
    v: "a \<in> {0, 1}" "b \<in> {0, 1}" "e \<in> {0, 1}" and
    r: "map gen_row X0 ! i = [a, b, 3 * b, 2 * a, e, e + 4 * a, 3 * b + 4 * e + 8 * a]"
    using dataset_row [OF assms(1,2)] by blast
  have "j \<in> {0, 1, 2, 3, 4, 5, 6}"
    using assms(3) by auto
  then show ?thesis
    unfolding r using v by auto
qed

subsection \<open>The example draws, evaluated\<close>

lemma draw_const_ok: "randint_result 2 (2000, 7) draw_const"
  by (simp add: draw_const_def randint_result_def has_shape_def)

lemma draw_zero_ok: "randint_result 2 (2000, 7) draw_zero"
  by (simp add: draw_zero_def randint_result_def has_shape_def)

lemma draw_alt_ok: "randint_result 2 (2000, 7) draw_alt"
  by (simp add: draw_alt_def randint_result_def has_shape_def)

lemma draw_other_ok: "randint_result 2 (2000, 7) draw_other"
  by (simp add: draw_other_def randint_result_def has_shape_def)

lemma make_dataset_draw_const:
  "make_dataset draw_const = Inr (replicate 2000 [1, 0, 0, 2, 1, 5, 12])"
  by (simp add: draw_const_def make_dataset_def getcol_def setcol_def smul_def vadd_def)

lemma make_dataset_draw_zero:
  "make_dataset draw_zero = Inr (replicate 2000 [0, 0, 0, 0, 0, 0, 0])"
  by (simp add: draw_zero_def make_dataset_def getcol_def setcol_def smul_def vadd_def)

lemma make_dataset_draw_alt:
  "make_dataset draw_alt =
     Inr (map (\<lambda>k. [int (k mod 2), 1, 3, 2 * int (k mod 2), int (k div 2 mod 2),
                     int (k div 2 mod 2) + 4 * int (k mod 2),
                     3 + 4 * int (k div 2 mod 2) + 8 * int (k mod 2)]) [0..<2000])"
  by (simp add: draw_alt_def make_dataset_def getcol_def setcol_def smul_def vadd_def
      map2_same map2_maps comp_def)

section \<open>The claims about make_dataset\<close>

text \<open>
  C1. In the array \<open>make_dataset\<close> returns, column 5 of every row is column 4 plus two
  times column 3.
\<close>

theorem col5_is_col4_plus_twice_col3:
  assumes "randint_result 2 (2000, 7) X0"
  shows "\<exists>X. make_dataset X0 = Inr X \<and>
           (\<forall>i < length X. X ! i ! 5 = X ! i ! 4 + 2 * X ! i ! 3)"
proof -
  have "\<forall>i < length (map gen_row X0).
          map gen_row X0 ! i ! 5 = map gen_row X0 ! i ! 4 + 2 * map gen_row X0 ! i ! 3"
  proof (intro allI impI)
    fix i assume "i < length (map gen_row X0)"
    then have i: "i < 2000" using assms draw_shape(1) by simp
    obtain a b c d e f g where
      "map gen_row X0 ! i = [a, b, 3 * b, 2 * a, e, e + 4 * a, 3 * b + 4 * e + 8 * a]"
      using dataset_row [OF assms i] by blast
    then show "map gen_row X0 ! i ! 5 = map gen_row X0 ! i ! 4 + 2 * map gen_row X0 ! i ! 3"
      by simp
  qed
  then show ?thesis
    using make_dataset_draw [OF assms] by blast
qed

theorem col5_is_col4_plus_twice_col3_witness:
  "randint_result 2 (2000, 7) draw_const \<and>
   (\<exists>X. make_dataset draw_const = Inr X \<and> X = replicate 2000 [1, 0, 0, 2, 1, 5, 12] \<and>
        17 < length X \<and> X ! 17 ! 5 = X ! 17 ! 4 + 2 * X ! 17 ! 3 \<and> X ! 17 ! 5 = 5)"
proof -
  obtain X where X: "make_dataset draw_const = Inr X"
    and r: "\<forall>i < length X. X ! i ! 5 = X ! i ! 4 + 2 * X ! i ! 3"
    using col5_is_col4_plus_twice_col3 [OF draw_const_ok] by blast
  have e: "X = replicate 2000 [1, 0, 0, 2, 1, 5, 12]"
    using X make_dataset_draw_const by simp
  then have "17 < length X" and "X ! 17 ! 5 = 5"
    by simp_all
  then show ?thesis
    using draw_const_ok X e r by blast
qed

text \<open>
  C2. Every invocation of \<open>make_dataset\<close> returns a table of exactly 2000 rows, each of
  exactly 7 columns.
\<close>

theorem make_dataset_shape:
  assumes "randint_result 2 (2000, 7) X0"
  shows "\<exists>X. make_dataset X0 = Inr X \<and> length X = 2000 \<and> (\<forall>r \<in> set X. length r = 7)"
proof -
  have "length (map gen_row X0) = 2000"
    using assms draw_shape(1) by simp
  moreover have "\<forall>r \<in> set (map gen_row X0). length r = 7"
    using assms draw_shape(2) by (simp add: gen_row_def Let_def)
  ultimately show ?thesis
    using make_dataset_draw [OF assms] by blast
qed

theorem make_dataset_shape_witness:
  "randint_result 2 (2000, 7) draw_zero \<and>
   (\<exists>X. make_dataset draw_zero = Inr X \<and> X = replicate 2000 [0, 0, 0, 0, 0, 0, 0] \<and>
        length X = 2000 \<and> X ! 0 \<in> set X \<and> length (X ! 0) = 7)"
proof -
  obtain X where X: "make_dataset draw_zero = Inr X"
    and n: "length X = 2000" and c: "\<forall>r \<in> set X. length r = 7"
    using make_dataset_shape [OF draw_zero_ok] by blast
  have e: "X = replicate 2000 [0, 0, 0, 0, 0, 0, 0]"
    using X make_dataset_draw_zero by simp
  have m: "X ! 0 \<in> set X"
    using n by simp
  then have "length (X ! 0) = 7"
    using c by blast
  then show ?thesis
    using draw_zero_ok X e n m by blast
qed

text \<open>
  C3. Columns 1 and 2 are related by one fixed factor: column 2 is three times column 1
  in every row, so that two rows with the same value in column 2 have the same value in
  column 1.
\<close>

theorem col2_is_thrice_col1:
  assumes "randint_result 2 (2000, 7) X0"
  shows "\<exists>X. make_dataset X0 = Inr X \<and>
           (\<forall>i < length X. X ! i ! 2 = 3 * X ! i ! 1) \<and>
           (\<forall>i < length X. \<forall>k < length X. X ! i ! 2 = X ! k ! 2 \<longrightarrow> X ! i ! 1 = X ! k ! 1)"
proof -
  let ?X = "map gen_row X0"
  have n: "length ?X = 2000"
    using assms draw_shape(1) by simp
  have rule: "?X ! i ! 2 = 3 * ?X ! i ! 1" if "i < length ?X" for i
  proof -
    have i: "i < 2000" using that n by simp
    obtain a b c d e f g where
      "?X ! i = [a, b, 3 * b, 2 * a, e, e + 4 * a, 3 * b + 4 * e + 8 * a]"
      using dataset_row [OF assms i] by blast
    then show ?thesis by simp
  qed
  have "?X ! i ! 1 = ?X ! k ! 1"
    if "i < length ?X" and "k < length ?X" and "?X ! i ! 2 = ?X ! k ! 2" for i k
    using that rule [of i] rule [of k] by simp
  then show ?thesis
    using make_dataset_draw [OF assms] rule by blast
qed

theorem col2_is_thrice_col1_witness:
  "randint_result 2 (2000, 7) draw_alt \<and>
   (\<exists>X. make_dataset draw_alt = Inr X \<and> length X = 2000 \<and>
        X ! 4 = [0, 1, 3, 0, 0, 0, 3] \<and> X ! 7 = [1, 1, 3, 2, 1, 5, 15] \<and>
        X ! 4 ! 2 = 3 * X ! 4 ! 1 \<and> X ! 4 ! 2 = X ! 7 ! 2 \<and> X ! 4 ! 1 = X ! 7 ! 1)"
proof -
  obtain X where X: "make_dataset draw_alt = Inr X"
    and r: "\<forall>i < length X. X ! i ! 2 = 3 * X ! i ! 1"
    and u: "\<forall>i < length X. \<forall>k < length X. X ! i ! 2 = X ! k ! 2 \<longrightarrow> X ! i ! 1 = X ! k ! 1"
    using col2_is_thrice_col1 [OF draw_alt_ok] by blast
  have n: "length X = 2000" and r4: "X ! 4 = [0, 1, 3, 0, 0, 0, 3]"
    and r7: "X ! 7 = [1, 1, 3, 2, 1, 5, 15]"
    using X make_dataset_draw_alt by auto
  have "X ! 4 ! 2 = 3 * X ! 4 ! 1"
    using r n by simp
  moreover have "X ! 4 ! 2 = X ! 7 ! 2"
    using r4 r7 by simp
  moreover have "X ! 4 ! 1 = X ! 7 ! 1"
    using u n \<open>X ! 4 ! 2 = X ! 7 ! 2\<close> by simp
  ultimately show ?thesis
    using draw_alt_ok X n r4 r7 by blast
qed

text \<open>
  C5. The table \<open>make_dataset\<close> returns is an observation table: every row has 7
  columns and every value lies in its column's finite domain. Columns 0, 1 and 4 take
  values in {0, 1}, column 2 in {0, 3}, column 3 in {0, 2}, column 5 in {0, 1, 4, 5} and
  column 6 in {0, 3, 4, 7, 8, 11, 12, 15}.
\<close>

theorem make_dataset_domains:
  assumes "randint_result 2 (2000, 7) X0"
  shows "\<exists>X. make_dataset X0 = Inr X \<and>
           (\<forall>i < length X.
              length (X ! i) = 7 \<and>
              X ! i ! 0 \<in> {0, 1} \<and> X ! i ! 1 \<in> {0, 1} \<and> X ! i ! 2 \<in> {0, 3} \<and>
              X ! i ! 3 \<in> {0, 2} \<and> X ! i ! 4 \<in> {0, 1} \<and> X ! i ! 5 \<in> {0, 1, 4, 5} \<and>
              X ! i ! 6 \<in> {0, 3, 4, 7, 8, 11, 12, 15})"
proof -
  let ?X = "map gen_row X0"
  have n: "length ?X = 2000"
    using assms draw_shape(1) by simp
  have "length (?X ! i) = 7 \<and>
        ?X ! i ! 0 \<in> {0, 1} \<and> ?X ! i ! 1 \<in> {0, 1} \<and> ?X ! i ! 2 \<in> {0, 3} \<and>
        ?X ! i ! 3 \<in> {0, 2} \<and> ?X ! i ! 4 \<in> {0, 1} \<and> ?X ! i ! 5 \<in> {0, 1, 4, 5} \<and>
        ?X ! i ! 6 \<in> {0, 3, 4, 7, 8, 11, 12, 15}" if "i < length ?X" for i
  proof -
    have i: "i < 2000" using that n by simp
    obtain a b c d e f g where
      v: "a \<in> {0, 1}" "b \<in> {0, 1}" "e \<in> {0, 1}" and
      r: "?X ! i = [a, b, 3 * b, 2 * a, e, e + 4 * a, 3 * b + 4 * e + 8 * a]"
      using dataset_row [OF assms i] by blast
    show ?thesis
      unfolding r using v by auto
  qed
  then show ?thesis
    using make_dataset_draw [OF assms] by blast
qed

theorem make_dataset_domains_witness:
  "randint_result 2 (2000, 7) draw_alt \<and>
   (\<exists>X. make_dataset draw_alt = Inr X \<and> length X = 2000 \<and>
        X ! 1999 = [1, 1, 3, 2, 1, 5, 15] \<and> length (X ! 1999) = 7 \<and>
        X ! 1999 ! 5 \<in> {0, 1, 4, 5} \<and> X ! 1999 ! 6 \<in> {0, 3, 4, 7, 8, 11, 12, 15})"
proof -
  obtain X where X: "make_dataset draw_alt = Inr X"
    and d: "\<forall>i < length X.
              length (X ! i) = 7 \<and>
              X ! i ! 0 \<in> {0, 1} \<and> X ! i ! 1 \<in> {0, 1} \<and> X ! i ! 2 \<in> {0, 3} \<and>
              X ! i ! 3 \<in> {0, 2} \<and> X ! i ! 4 \<in> {0, 1} \<and> X ! i ! 5 \<in> {0, 1, 4, 5} \<and>
              X ! i ! 6 \<in> {0, 3, 4, 7, 8, 11, 12, 15}"
    using make_dataset_domains [OF draw_alt_ok] by blast
  have n: "length X = 2000" and r: "X ! 1999 = [1, 1, 3, 2, 1, 5, 15]"
    using X make_dataset_draw_alt by auto
  have "1999 < length X"
    using n by simp
  then have "length (X ! 1999) = 7 \<and> X ! 1999 ! 5 \<in> {0, 1, 4, 5} \<and>
             X ! 1999 ! 6 \<in> {0, 3, 4, 7, 8, 11, 12, 15}"
    using d by blast
  then show ?thesis
    using draw_alt_ok X n r by blast
qed

text \<open>
  C8. Column 3 is written (as two times column 0) before column 5 is computed from it, so
  in the returned array column 5 of every row is column 4 plus four times column 0, a
  value in {0, 1, 4, 5}.
\<close>

theorem col5_is_col4_plus_four_col0:
  assumes "randint_result 2 (2000, 7) X0"
  shows "\<exists>X. make_dataset X0 = Inr X \<and>
           (\<forall>i < length X.
              X ! i ! 3 = 2 * X ! i ! 0 \<and> X ! i ! 5 = X ! i ! 4 + 4 * X ! i ! 0 \<and>
              X ! i ! 5 \<in> {0, 1, 4, 5})"
proof -
  let ?X = "map gen_row X0"
  have n: "length ?X = 2000"
    using assms draw_shape(1) by simp
  have "?X ! i ! 3 = 2 * ?X ! i ! 0 \<and> ?X ! i ! 5 = ?X ! i ! 4 + 4 * ?X ! i ! 0 \<and>
        ?X ! i ! 5 \<in> {0, 1, 4, 5}" if "i < length ?X" for i
  proof -
    have i: "i < 2000" using that n by simp
    obtain a b c d e f g where
      v: "a \<in> {0, 1}" "b \<in> {0, 1}" "e \<in> {0, 1}" and
      r: "?X ! i = [a, b, 3 * b, 2 * a, e, e + 4 * a, 3 * b + 4 * e + 8 * a]"
      using dataset_row [OF assms i] by blast
    show ?thesis
      unfolding r using v by auto
  qed
  then show ?thesis
    using make_dataset_draw [OF assms] by blast
qed

theorem col5_is_col4_plus_four_col0_witness:
  "randint_result 2 (2000, 7) draw_alt \<and>
   (\<exists>X. make_dataset draw_alt = Inr X \<and> length X = 2000 \<and>
        X ! 3 = [1, 1, 3, 2, 1, 5, 15] \<and>
        X ! 3 ! 3 = 2 * X ! 3 ! 0 \<and> X ! 3 ! 5 = X ! 3 ! 4 + 4 * X ! 3 ! 0 \<and>
        X ! 3 ! 5 \<in> {0, 1, 4, 5})"
proof -
  obtain X where X: "make_dataset draw_alt = Inr X"
    and d: "\<forall>i < length X.
              X ! i ! 3 = 2 * X ! i ! 0 \<and> X ! i ! 5 = X ! i ! 4 + 4 * X ! i ! 0 \<and>
              X ! i ! 5 \<in> {0, 1, 4, 5}"
    using col5_is_col4_plus_four_col0 [OF draw_alt_ok] by blast
  have n: "length X = 2000" and r: "X ! 3 = [1, 1, 3, 2, 1, 5, 15]"
    using X make_dataset_draw_alt by auto
  have "3 < length X"
    using n by simp
  then have "X ! 3 ! 3 = 2 * X ! 3 ! 0 \<and> X ! 3 ! 5 = X ! 3 ! 4 + 4 * X ! 3 ! 0 \<and>
             X ! 3 ! 5 \<in> {0, 1, 4, 5}"
    using d by blast
  then show ?thesis
    using draw_alt_ok X n r by blast
qed

text \<open>
  C9. Column 6 of a row determines columns 0, 1 and 4 of that row: on the triples of
  zeros and ones the map from (a, b, c) to 3 b + 4 c + 8 a is injective, column 6 is that
  map of columns 0, 1 and 4, and so two rows with equal column 6 agree on columns 0, 1
  and 4.
\<close>

theorem col6_determines_cols_0_1_4:
  assumes "randint_result 2 (2000, 7) X0"
  shows "\<exists>X. make_dataset X0 = Inr X \<and>
           inj_on (\<lambda>(a, b, c). 3 * b + 4 * c + 8 * a) ({0, 1} \<times> {0, 1} \<times> {0, 1 :: int}) \<and>
           (\<forall>i < length X. X ! i ! 6 = 3 * X ! i ! 1 + 4 * X ! i ! 4 + 8 * X ! i ! 0) \<and>
           (\<forall>i < length X. \<forall>k < length X. X ! i ! 6 = X ! k ! 6 \<longrightarrow>
              X ! i ! 0 = X ! k ! 0 \<and> X ! i ! 1 = X ! k ! 1 \<and> X ! i ! 4 = X ! k ! 4)"
proof -
  let ?X = "map gen_row X0"
  have n: "length ?X = 2000"
    using assms draw_shape(1) by simp
  have inj: "inj_on (\<lambda>(a, b, c). 3 * b + 4 * c + 8 * a) ({0, 1} \<times> {0, 1} \<times> {0, 1 :: int})"
    by (auto simp add: inj_on_def)
  have rule: "?X ! i ! 6 = 3 * ?X ! i ! 1 + 4 * ?X ! i ! 4 + 8 * ?X ! i ! 0 \<and>
              ?X ! i ! 0 \<in> {0, 1} \<and> ?X ! i ! 1 \<in> {0, 1} \<and> ?X ! i ! 4 \<in> {0, 1}"
    if "i < length ?X" for i
  proof -
    have i: "i < 2000" using that n by simp
    obtain a b c d e f g where
      v: "a \<in> {0, 1}" "b \<in> {0, 1}" "e \<in> {0, 1}" and
      r: "?X ! i = [a, b, 3 * b, 2 * a, e, e + 4 * a, 3 * b + 4 * e + 8 * a]"
      using dataset_row [OF assms i] by blast
    show ?thesis
      unfolding r using v by simp
  qed
  have det: "?X ! i ! 0 = ?X ! k ! 0 \<and> ?X ! i ! 1 = ?X ! k ! 1 \<and> ?X ! i ! 4 = ?X ! k ! 4"
    if "i < length ?X" and "k < length ?X" and "?X ! i ! 6 = ?X ! k ! 6" for i k
  proof -
    have mi: "(?X ! i ! 0, ?X ! i ! 1, ?X ! i ! 4) \<in> {0, 1} \<times> {0, 1} \<times> {0, 1}"
      using rule [OF that(1)] by auto
    have mk: "(?X ! k ! 0, ?X ! k ! 1, ?X ! k ! 4) \<in> {0, 1} \<times> {0, 1} \<times> {0, 1}"
      using rule [OF that(2)] by auto
    have eq: "(\<lambda>(a, b, c). 3 * b + 4 * c + 8 * a) (?X ! i ! 0, ?X ! i ! 1, ?X ! i ! 4)
            = (\<lambda>(a, b, c). 3 * b + 4 * c + 8 * a) (?X ! k ! 0, ?X ! k ! 1, ?X ! k ! 4)"
      using rule [OF that(1)] rule [OF that(2)] that(3) by simp
    have "(?X ! i ! 0, ?X ! i ! 1, ?X ! i ! 4) = (?X ! k ! 0, ?X ! k ! 1, ?X ! k ! 4)"
      by (rule inj_onD [OF inj eq mi mk])
    then show ?thesis by simp
  qed
  show ?thesis
    using make_dataset_draw [OF assms] inj rule det by blast
qed

theorem col6_determines_cols_0_1_4_witness:
  "randint_result 2 (2000, 7) draw_alt \<and>
   (\<exists>X. make_dataset draw_alt = Inr X \<and> length X = 2000 \<and>
        X ! 6 = [0, 1, 3, 0, 1, 1, 7] \<and> X ! 10 = [0, 1, 3, 0, 1, 1, 7] \<and>
        X ! 6 ! 6 = X ! 10 ! 6 \<and>
        X ! 6 ! 0 = X ! 10 ! 0 \<and> X ! 6 ! 1 = X ! 10 ! 1 \<and> X ! 6 ! 4 = X ! 10 ! 4)"
proof -
  obtain X where X: "make_dataset draw_alt = Inr X"
    and d: "\<forall>i < length X. \<forall>k < length X. X ! i ! 6 = X ! k ! 6 \<longrightarrow>
              X ! i ! 0 = X ! k ! 0 \<and> X ! i ! 1 = X ! k ! 1 \<and> X ! i ! 4 = X ! k ! 4"
    using col6_determines_cols_0_1_4 [OF draw_alt_ok] by blast
  have n: "length X = 2000" and r6: "X ! 6 = [0, 1, 3, 0, 1, 1, 7]"
    and r10: "X ! 10 = [0, 1, 3, 0, 1, 1, 7]"
    using X make_dataset_draw_alt by auto
  have s: "X ! 6 ! 6 = X ! 10 ! 6"
    using r6 r10 by simp
  have "6 < length X" and "10 < length X"
    using n by simp_all
  then have "X ! 6 ! 0 = X ! 10 ! 0 \<and> X ! 6 ! 1 = X ! 10 ! 1 \<and> X ! 6 ! 4 = X ! 10 ! 4"
    using d s by blast
  then show ?thesis
    using draw_alt_ok X n r6 r10 s by blast
qed

text \<open>
  C10. The four assignments write columns 2, 3, 5 and 6 only: in the returned array every
  entry of columns 0, 1 and 4 is the entry of the initial draw, a zero or a one.
\<close>

theorem derived_columns_leave_0_1_4:
  assumes "randint_result 2 (2000, 7) X0"
  shows "\<exists>X. make_dataset X0 = Inr X \<and> length X = length X0 \<and>
           (\<forall>i < length X.
              X ! i ! 0 = X0 ! i ! 0 \<and> X ! i ! 1 = X0 ! i ! 1 \<and> X ! i ! 4 = X0 ! i ! 4 \<and>
              X0 ! i ! 0 \<in> {0, 1} \<and> X0 ! i ! 1 \<in> {0, 1} \<and> X0 ! i ! 4 \<in> {0, 1})"
proof -
  let ?X = "map gen_row X0"
  have n: "length ?X = 2000"
    using assms draw_shape(1) by simp
  have "?X ! i ! 0 = X0 ! i ! 0 \<and> ?X ! i ! 1 = X0 ! i ! 1 \<and> ?X ! i ! 4 = X0 ! i ! 4 \<and>
        X0 ! i ! 0 \<in> {0, 1} \<and> X0 ! i ! 1 \<in> {0, 1} \<and> X0 ! i ! 4 \<in> {0, 1}"
    if "i < length ?X" for i
  proof -
    have i: "i < 2000" using that n by simp
    obtain a b c d e f g where
      o: "X0 ! i = [a, b, c, d, e, f, g]" and
      v: "a \<in> {0, 1}" "b \<in> {0, 1}" "e \<in> {0, 1}" and
      r: "?X ! i = [a, b, 3 * b, 2 * a, e, e + 4 * a, 3 * b + 4 * e + 8 * a]"
      using dataset_row [OF assms i] by blast
    show ?thesis
      unfolding r o using v by simp
  qed
  moreover have "length ?X = length X0"
    by simp
  ultimately show ?thesis
    using make_dataset_draw [OF assms] by blast
qed

theorem derived_columns_leave_0_1_4_witness:
  "randint_result 2 (2000, 7) draw_const \<and>
   (\<exists>X. make_dataset draw_const = Inr X \<and> length X = 2000 \<and>
        draw_const ! 3 = [1, 0, 1, 1, 1, 0, 0] \<and> X ! 3 = [1, 0, 0, 2, 1, 5, 12] \<and>
        X ! 3 ! 0 = draw_const ! 3 ! 0 \<and> X ! 3 ! 1 = draw_const ! 3 ! 1 \<and>
        X ! 3 ! 4 = draw_const ! 3 ! 4)"
proof -
  obtain X where X: "make_dataset draw_const = Inr X"
    and d: "\<forall>i < length X.
              X ! i ! 0 = draw_const ! i ! 0 \<and> X ! i ! 1 = draw_const ! i ! 1 \<and>
              X ! i ! 4 = draw_const ! i ! 4 \<and>
              draw_const ! i ! 0 \<in> {0, 1} \<and> draw_const ! i ! 1 \<in> {0, 1} \<and>
              draw_const ! i ! 4 \<in> {0, 1}"
    using derived_columns_leave_0_1_4 [OF draw_const_ok] by blast
  have n: "length X = 2000" and r: "X ! 3 = [1, 0, 0, 2, 1, 5, 12]"
    using X make_dataset_draw_const by auto
  have o: "draw_const ! 3 = [1, 0, 1, 1, 1, 0, 0]"
    by (simp add: draw_const_def)
  have "3 < length X"
    using n by simp
  then have "X ! 3 ! 0 = draw_const ! 3 ! 0 \<and> X ! 3 ! 1 = draw_const ! 3 ! 1 \<and>
             X ! 3 ! 4 = draw_const ! 3 ! 4"
    using d by blast
  then show ?thesis
    using draw_const_ok X n r o by blast
qed

text \<open>
  C4. As stated, the claim has the notebook fix a random seed, so that every run produces
  the same data. The notebook sets no seed: the draw is an input of each run, and two draws
  that \<open>randint\<close> can return give different data.
\<close>

theorem runs_differ_counterexample:
  "randint_result 2 (2000, 7) draw_zero \<and> randint_result 2 (2000, 7) draw_const \<and>
   make_dataset draw_zero \<noteq> make_dataset draw_const \<and>
   run_cell (\<lambda>X. X) draw_zero \<noteq> run_cell (\<lambda>X. X) draw_const"
proof -
  have "replicate 2000 [0, 0, 0, 0, 0, 0, 0] \<noteq> replicate 2000 [1, 0, 0, 2, 1, 5, 12 :: int]"
    by (simp add: replicate_eq_replicate)
  then have "make_dataset draw_zero \<noteq> make_dataset draw_const"
    by (simp add: make_dataset_draw_zero make_dataset_draw_const)
  moreover from this have "run_cell (\<lambda>X. X) draw_zero \<noteq> run_cell (\<lambda>X. X) draw_const"
    by (simp add: run_cell_def make_dataset_draw_zero make_dataset_draw_const)
  ultimately show ?thesis
    using draw_zero_ok draw_const_ok by blast
qed

text \<open>
  C4, amended. Two runs produce the same data exactly when their draws agree on columns
  0, 1 and 4, as they do when the generator starts both runs from the same seed; the
  learner, a function of the data, then returns the same model.
\<close>

theorem same_draw_same_data:
  assumes "randint_result 2 (2000, 7) A" and "randint_result 2 (2000, 7) B"
  shows "(make_dataset A = make_dataset B \<longleftrightarrow>
            (\<forall>i < 2000. A ! i ! 0 = B ! i ! 0 \<and> A ! i ! 1 = B ! i ! 1 \<and> A ! i ! 4 = B ! i ! 4)) \<and>
         (make_dataset A = make_dataset B \<longrightarrow> run_cell learn A = run_cell learn B)"
proof -
  have rows: "(map gen_row A ! i = map gen_row B ! i) =
              (A ! i ! 0 = B ! i ! 0 \<and> A ! i ! 1 = B ! i ! 1 \<and> A ! i ! 4 = B ! i ! 4)"
    if i: "i < 2000" for i
  proof -
    obtain a b c d e f g where
      oa: "A ! i = [a, b, c, d, e, f, g]" and
      ra: "map gen_row A ! i = [a, b, 3 * b, 2 * a, e, e + 4 * a, 3 * b + 4 * e + 8 * a]"
      using dataset_row [OF assms(1) i] by blast
    obtain a' b' c' d' e' f' g' where
      ob: "B ! i = [a', b', c', d', e', f', g']" and
      rb: "map gen_row B ! i =
             [a', b', 3 * b', 2 * a', e', e' + 4 * a', 3 * b' + 4 * e' + 8 * a']"
      using dataset_row [OF assms(2) i] by blast
    show ?thesis
      unfolding ra rb oa ob by auto
  qed
  have la: "length (map gen_row A) = 2000" and lb: "length (map gen_row B) = 2000"
    using assms draw_shape(1) by simp_all
  have "(map gen_row A = map gen_row B) =
        (\<forall>i < 2000. map gen_row A ! i = map gen_row B ! i)"
    using la lb by (auto simp add: list_eq_iff_nth_eq)
  then have "(map gen_row A = map gen_row B) =
        (\<forall>i < 2000. A ! i ! 0 = B ! i ! 0 \<and> A ! i ! 1 = B ! i ! 1 \<and> A ! i ! 4 = B ! i ! 4)"
    using rows by simp
  then have "make_dataset A = make_dataset B \<longleftrightarrow>
        (\<forall>i < 2000. A ! i ! 0 = B ! i ! 0 \<and> A ! i ! 1 = B ! i ! 1 \<and> A ! i ! 4 = B ! i ! 4)"
    by (simp add: make_dataset_draw [OF assms(1)] make_dataset_draw [OF assms(2)])
  moreover have "make_dataset A = make_dataset B \<longrightarrow> run_cell learn A = run_cell learn B"
    by (simp add: run_cell_def)
  ultimately show ?thesis
    by blast
qed

theorem same_draw_same_data_witness:
  "randint_result 2 (2000, 7) draw_const \<and> randint_result 2 (2000, 7) draw_other \<and>
   draw_const \<noteq> draw_other \<and>
   draw_const ! 5 ! 0 = draw_other ! 5 ! 0 \<and> draw_const ! 5 ! 1 = draw_other ! 5 ! 1 \<and>
   draw_const ! 5 ! 4 = draw_other ! 5 ! 4 \<and>
   make_dataset draw_const = make_dataset draw_other \<and>
   run_cell length draw_const = run_cell length draw_other \<and>
   run_cell length draw_const = Inr 2000"
proof -
  have c: "\<forall>i < 2000. draw_const ! i ! 0 = draw_other ! i ! 0 \<and>
             draw_const ! i ! 1 = draw_other ! i ! 1 \<and> draw_const ! i ! 4 = draw_other ! i ! 4"
    by (simp add: draw_const_def draw_other_def)
  have t: "make_dataset draw_const = make_dataset draw_other \<and>
        run_cell length draw_const = run_cell length draw_other"
    using same_draw_same_data [OF draw_const_ok draw_other_ok, of length] c by blast
  have "draw_const \<noteq> draw_other"
    by (simp add: draw_const_def draw_other_def replicate_eq_replicate)
  moreover have "run_cell length draw_const = Inr 2000"
    by (simp add: run_cell_def make_dataset_draw_const)
  ultimately show ?thesis
    using draw_const_ok draw_other_ok c t by simp
qed

section \<open>The learned network\<close>

lemma Nil_in_subseqs: "[] \<in> set (subseqs xs)"
  by (induction xs) (simp_all add: Let_def)

lemma fold_pick:
  "foldl (\<lambda>best P. if better P best then P else best) a cs \<in> insert a (set cs)"
  by (induction cs arbitrary: a) auto

lemma best_parent_set_candidate:
  "best_parent_set score k T v earlier \<in> set (candidates k earlier)"
proof -
  have "[] \<in> set (candidates k earlier)"
    by (simp add: candidates_def Nil_in_subseqs split: option.splits)
  then show ?thesis
    unfolding best_parent_set_def
    using fold_pick [of "preferred score T v" "[]" "candidates k earlier"] by auto
qed

lemma best_parent_set_earlier:
  "set (best_parent_set score k T v earlier) \<subseteq> set earlier"
proof -
  have "best_parent_set score k T v earlier \<in> set (subseqs earlier)"
    using best_parent_set_candidate [of score k T v earlier] by (simp add: candidates_def)
  then have "set (best_parent_set score k T v earlier) \<in> set ` set (subseqs earlier)"
    by (rule imageI)
  then show ?thesis
    by (simp add: subseqs_powset)
qed

lemma best_parent_set_bounded:
  "length (best_parent_set score (Some m) T v earlier) \<le> m"
  using best_parent_set_candidate [of score "Some m" T v earlier] by (simp add: candidates_def)

lemma search_order_keys: "map fst (search_order score k T earlier later) = later"
  by (induction later arbitrary: earlier) simp_all

lemma search_order_prefix:
  assumes "(v, P) \<in> set (search_order score k T earlier later)"
  shows "\<exists>ys zs. later = ys @ v # zs \<and> set P \<subseteq> set earlier \<union> set ys"
  using assms
proof (induction later arbitrary: earlier)
  case Nil
  then show ?case by simp
next
  case (Cons u later)
  from Cons.prems consider
    (head) "v = u" "P = best_parent_set score k T u earlier" |
    (tail) "(v, P) \<in> set (search_order score k T (earlier @ [u]) later)"
    by auto
  then show ?case
  proof cases
    case head
    then have "u # later = [] @ v # later \<and> set P \<subseteq> set earlier \<union> set []"
      using best_parent_set_earlier by simp
    then show ?thesis by blast
  next
    case tail
    then obtain ys zs where "later = ys @ v # zs" and "set P \<subseteq> set (earlier @ [u]) \<union> set ys"
      using Cons.IH by blast
    then have "u # later = (u # ys) @ v # zs \<and> set P \<subseteq> set earlier \<union> set (u # ys)"
      by auto
    then show ?thesis by blast
  qed
qed

lemma search_order_parents_first: "parents_first earlier (search_order score k T earlier later)"
proof (induction later arbitrary: earlier)
  case Nil
  then show ?case by simp
next
  case (Cons u later)
  have "list_all (\<lambda>p. p \<in> set earlier) (best_parent_set score k T u earlier)"
    using best_parent_set_earlier [of score k T u earlier] by (auto simp add: list_all_iff)
  then show ?case
    using Cons.IH by simp
qed

lemma parents_first_sorts:
  "parents_first placed net \<Longrightarrow> topological_sort net placed = Some (placed @ map fst net)"
proof (induction net arbitrary: placed)
  case Nil
  then show ?case by (simp add: topological_sort.simps)
next
  case (Cons e rest)
  then have h: "list_all (\<lambda>p. p \<in> set placed) (snd e)" and r: "parents_first (placed @ [fst e]) rest"
    by simp_all
  have "topological_sort (e # rest) placed = topological_sort rest (placed @ [fst e])"
    by (subst topological_sort.simps) (simp add: h)
  also have "\<dots> = Some ((placed @ [fst e]) @ map fst rest)"
    using Cons.IH [OF r] .
  finally show ?case by simp
qed

lemma position_prefix:
  assumes "distinct (ys @ v # zs)"
  shows "position (ys @ v # zs) v = length ys"
    and "p \<in> set ys \<Longrightarrow> position (ys @ v # zs) p < length ys"
proof -
  have "v \<notin> set ys" using assms by simp
  then have "takeWhile (\<lambda>x. x \<noteq> v) (ys @ v # zs) = ys"
    by (induction ys) auto
  then show "position (ys @ v # zs) v = length ys"
    by (simp add: position_def)
next
  assume p: "p \<in> set ys"
  then have "takeWhile (\<lambda>x. x \<noteq> p) (ys @ v # zs) = takeWhile (\<lambda>x. x \<noteq> p) ys"
    by (induction ys) auto
  moreover have "length (takeWhile (\<lambda>x. x \<noteq> p) ys) < length ys"
    using p by (induction ys) auto
  ultimately show "position (ys @ v # zs) p < length ys"
    by (simp add: position_def)
qed

lemma learned_edges_forward:
  assumes "distinct order" and "p \<in> set (parents (structure_search score k order T) v)"
  shows "position order p < position order v"
proof -
  let ?net = "structure_search score k order T"
  have "map_of ?net v \<noteq> None"
  proof
    assume "map_of ?net v = None"
    then have "parents ?net v = []"
      by (simp add: parents_def)
    then show False
      using assms(2) by simp
  qed
  then obtain P where m: "map_of ?net v = Some P"
    by blast
  have p: "p \<in> set P"
    using assms(2) m by (simp add: parents_def)
  have "(v, P) \<in> set (search_order score k T [] order)"
    using m by (auto simp add: structure_search_def dest: map_of_SomeD)
  then obtain ys zs where o: "order = ys @ v # zs" and s: "set P \<subseteq> set ys"
    using search_order_prefix by fastforce
  have "position order v = length ys" 
    using position_prefix(1) assms(1) unfolding o by blast
  moreover have "position order p < length ys"
    using position_prefix(2) assms(1) p s unfolding o by blast
  ultimately show ?thesis by simp
qed

text \<open>
  C6. In every network the structure-learning call returns, no variable is in its own
  parent set and the graph has no directed cycle: the topological sort of the learned
  graph succeeds. The ordering the search is given lists each variable once.
\<close>

theorem learned_network_is_dag:
  assumes "distinct order" and "from_samples score k order X = Inr net"
  shows "(\<forall>v. v \<notin> set (parents net v)) \<and> acyclic (edges net) \<and>
         topological_sort net [] = Some order"
proof -
  have n: "net = structure_search score k order X"
    using assms(2)
    by (auto simp add: from_samples_def observation_table_def split: if_splits)
  have fwd: "position order p < position order v" if "p \<in> set (parents net v)" for p v
    using learned_edges_forward [OF assms(1)] that unfolding n by blast
  have self: "\<forall>v. v \<notin> set (parents net v)"
    using fwd by fastforce
  have "edges net \<subseteq> measure (position order)"
    using fwd by (auto simp add: edges_def)
  then have "wf (edges net)"
    using wf_measure by (rule wf_subset [rotated])
  then have acyc: "acyclic (edges net)"
    by (rule wf_acyclic)
  have "parents_first [] net"
    unfolding n structure_search_def by (rule search_order_parents_first)
  then have "topological_sort net [] = Some ([] @ map fst net)"
    by (rule parents_first_sorts)
  then have "topological_sort net [] = Some order"
    unfolding n structure_search_def by (simp add: search_order_keys)
  then show ?thesis
    using self acyc by blast
qed

lemma two_cycle_not_sorted: "topological_sort [(0, [1]), (1, [0])] [] = None"
  by (simp add: topological_sort.simps)

lemma example_learned:
  "from_samples example_score (Some 2) [0, 1, 2] example_table = Inr [(0, []), (1, []), (2, [0, 1])]"
  by (simp add: from_samples_def observation_table_def example_table_def structure_search_def
      best_parent_set_def candidates_def preferred_def example_score_def)

theorem learned_network_is_dag_witness:
  "distinct [0, 1, 2 :: nat] \<and>
   from_samples example_score (Some 2) [0, 1, 2] example_table = Inr [(0, []), (1, []), (2, [0, 1])] \<and>
   parents [(0, []), (1, []), (2, [0, 1])] 2 = [0, 1] \<and>
   2 \<notin> set (parents [(0, []), (1, []), (2, [0, 1])] 2) \<and>
   acyclic (edges [(0, []), (1, []), (2, [0, 1])]) \<and>
   topological_sort [(0, []), (1, []), (2, [0, 1])] [] = Some [0, 1, 2]"
proof -
  have d: "distinct [0, 1, 2 :: nat]"
    by simp
  have "parents [(0, []), (1, []), (2, [0, 1])] 2 = [0, 1]"
    by (simp add: parents_def)
  then show ?thesis
    using d example_learned learned_network_is_dag [OF d example_learned] by simp
qed

end
